theory Spec2Isabelle
  imports Main
begin

section \<open>Values, exceptions and the log\<close>

text \<open>
  The checker works on the dictionaries that \<^verbatim>\<open>response.json()\<close> returns, so a value is
  any JSON value. A dictionary is an association list read with \<open>map_of\<close> (the parser
  keeps one entry per key). Numbers are Python's unbounded integers; a JSON number with a
  fraction is outside this model.
\<close>

datatype json =
    JNull
  | JBool bool
  | JInt int
  | JStr string
  | JList "json list"
  | JDict "(string \<times> json) list"

text \<open>The exceptions the methods of \<^verbatim>\<open>BlowoutChecker\<close> can raise on such values.\<close>

datatype py_error = KeyError | TypeError | AttributeError | IndexError

text \<open>A record written by \<^verbatim>\<open>logging.error\<close> or \<^verbatim>\<open>logging.info\<close>: the fixed part of the message.\<close>

datatype log_entry = LogError string | LogInfo string

text \<open>\<^verbatim>\<open>CONFIG['RUN_THRESHOLD']\<close>\<close>

definition RUN_THRESHOLD :: int where
  "RUN_THRESHOLD = 5"

text \<open>Python's truth value of an object, as \<^verbatim>\<open>not x\<close> and \<^verbatim>\<open>if x\<close> test it.\<close>

fun truthy :: "json \<Rightarrow> bool" where
  "truthy JNull = False"
| "truthy (JBool b) = b"
| "truthy (JInt n) = (n \<noteq> 0)"
| "truthy (JStr s) = (s \<noteq> [])"
| "truthy (JList xs) = (xs \<noteq> [])"
| "truthy (JDict kvs) = (kvs \<noteq> [])"

text \<open>
  \<^verbatim>\<open>x.get(key, default)\<close>: only a dictionary has the method; on any other value the
  attribute lookup raises \<^verbatim>\<open>AttributeError\<close>. A missing key gives the default and never
  raises.
\<close>

fun dict_get :: "json \<Rightarrow> string \<Rightarrow> json \<Rightarrow> py_error + json" where
  "dict_get (JDict kvs) k d = Inr (case map_of kvs k of None \<Rightarrow> d | Some v \<Rightarrow> v)"
| "dict_get _ k d = Inl AttributeError"

text \<open>
  \<^verbatim>\<open>acc + v\<close> for an integer \<^verbatim>\<open>acc\<close>, as \<^verbatim>\<open>sum\<close> and \<^verbatim>\<open>+=\<close> compute it: an integer
  is added, a boolean counts as 0 or 1, anything else raises \<^verbatim>\<open>TypeError\<close>.
\<close>

fun int_add :: "int \<Rightarrow> json \<Rightarrow> py_error + int" where
  "int_add acc (JInt n) = Inr (acc + n)"
| "int_add acc (JBool b) = Inr (acc + (if b then 1 else 0))"
| "int_add acc _ = Inl TypeError"

text \<open>
  The elements that iterating \<^verbatim>\<open>x[:n]\<close> and \<^verbatim>\<open>x[n:]\<close> visits. A list gives its
  elements, a string its characters as strings of length one. Slicing a dictionary raises
  (\<^verbatim>\<open>TypeError\<close>, the slice being unhashable, or \<^verbatim>\<open>KeyError\<close> on an interpreter where it
  is hashable: the handler of \<^verbatim>\<open>is_blowout\<close> treats both alike); a number, a boolean and
  \<^verbatim>\<open>None\<close> are not subscriptable.
\<close>

fun slice_to :: "nat \<Rightarrow> json \<Rightarrow> py_error + json list" where
  "slice_to n (JList xs) = Inr (take n xs)"
| "slice_to n (JStr s) = Inr (map (\<lambda>c. JStr [c]) (take n s))"
| "slice_to n _ = Inl TypeError"

fun slice_from :: "nat \<Rightarrow> json \<Rightarrow> py_error + json list" where
  "slice_from n (JList xs) = Inr (drop n xs)"
| "slice_from n (JStr s) = Inr (map (\<lambda>c. JStr [c]) (drop n s))"
| "slice_from n _ = Inl TypeError"

section \<open>The blowout evaluator\<close>

text \<open>The dictionary \<^verbatim>\<open>analysis\<close>; the empty dictionary \<^verbatim>\<open>{}\<close> is \<open>None\<close>.\<close>

record analysis =
  through_6_home :: int
  through_6_away :: int
  through_6_lead :: int
  maintained_lead :: bool

text \<open>\<^verbatim>\<open>i.get(side, {}).get("runs", 0)\<close>\<close>

definition side_runs :: "string \<Rightarrow> json \<Rightarrow> py_error + json" where
  "side_runs side i =
     (case dict_get i side (JDict []) of
        Inl e \<Rightarrow> Inl e
      | Inr t \<Rightarrow> dict_get t ''runs'' (JInt 0))"

text \<open>
  \<^verbatim>\<open>sum(i.get(side, {}).get("runs", 0) for i in ...)\<close>, started at \<open>acc\<close>: the generator
  reads one inning, \<^verbatim>\<open>sum\<close> adds it, and the first exception ends the sum.
\<close>

fun sum_runs :: "string \<Rightarrow> int \<Rightarrow> json list \<Rightarrow> py_error + int" where
  "sum_runs side acc [] = Inr acc"
| "sum_runs side acc (i # rest) =
     (case side_runs side i of
        Inl e \<Rightarrow> Inl e
      | Inr v \<Rightarrow>
          (case int_add acc v of
             Inl e \<Rightarrow> Inl e
           | Inr acc' \<Rightarrow> sum_runs side acc' rest))"

text \<open>
  The loop over \<^verbatim>\<open>innings[6:]\<close>, with the running totals and the analysis as its state.
  It returns from inside the loop at the first inning after which the lead is below the
  threshold.
\<close>

fun scan_innings :: "int \<Rightarrow> int \<Rightarrow> analysis \<Rightarrow> json list \<Rightarrow> py_error + bool \<times> analysis option" where
  "scan_innings cum_home cum_away an [] = Inr (True, Some an)"
| "scan_innings cum_home cum_away an (inning # rest) =
     (case side_runs ''home'' inning of
        Inl e \<Rightarrow> Inl e
      | Inr v \<Rightarrow>
     (case int_add cum_home v of
        Inl e \<Rightarrow> Inl e
      | Inr cum_home' \<Rightarrow>
     (case side_runs ''away'' inning of
        Inl e \<Rightarrow> Inl e
      | Inr w \<Rightarrow>
     (case int_add cum_away w of
        Inl e \<Rightarrow> Inl e
      | Inr cum_away' \<Rightarrow>
          if \<bar>cum_home' - cum_away'\<bar> < RUN_THRESHOLD
          then Inr (False, Some (an\<lparr>maintained_lead := False\<rparr>))
          else scan_innings cum_home' cum_away' an rest))))"

text \<open>The body of the \<^verbatim>\<open>try\<close> block of \<^verbatim>\<open>is_blowout\<close>.\<close>

definition is_blowout_try :: "json \<Rightarrow> py_error + bool \<times> analysis option" where
  "is_blowout_try game =
     (case dict_get game ''linescore'' (JDict []) of
        Inl e \<Rightarrow> Inl e
      | Inr linescore \<Rightarrow>
     (case dict_get linescore ''innings'' (JList []) of
        Inl e \<Rightarrow> Inl e
      | Inr innings \<Rightarrow>
          if \<not> truthy innings then Inr (False, None)
          else
     (case slice_to 6 innings of
        Inl e \<Rightarrow> Inl e
      | Inr first6 \<Rightarrow>
     (case sum_runs ''home'' 0 first6 of
        Inl e \<Rightarrow> Inl e
      | Inr cum_home \<Rightarrow>
     (case sum_runs ''away'' 0 first6 of
        Inl e \<Rightarrow> Inl e
      | Inr cum_away \<Rightarrow>
          let an = \<lparr>through_6_home = cum_home, through_6_away = cum_away,
                    through_6_lead = \<bar>cum_home - cum_away\<bar>, maintained_lead = True\<rparr>
          in if \<bar>cum_home - cum_away\<bar> < RUN_THRESHOLD then Inr (False, Some an)
             else
     (case slice_from 6 innings of
        Inl e \<Rightarrow> Inl e
      | Inr later \<Rightarrow> scan_innings cum_home cum_away an later))))))"

text \<open>
  \<^verbatim>\<open>is_blowout\<close>: the \<^verbatim>\<open>try\<close> block under \<^verbatim>\<open>except (KeyError, TypeError)\<close>. A caught
  exception is logged and gives \<^verbatim>\<open>(False, {})\<close>; any other exception leaves the method.
  The second component is what the call wrote to the log.
\<close>

definition is_blowout :: "json \<Rightarrow> (py_error + bool \<times> analysis option) \<times> log_entry list" where
  "is_blowout game =
     (case is_blowout_try game of
        Inl KeyError \<Rightarrow> (Inr (False, None), [LogError ''Error processing game data''])
      | Inl TypeError \<Rightarrow> (Inr (False, None), [LogError ''Error processing game data''])
      | Inl e \<Rightarrow> (Inl e, [])
      | Inr r \<Rightarrow> (Inr r, []))"

section \<open>The poll cycle\<close>

text \<open>
  The dictionary \<^verbatim>\<open>game_data\<close> that \<^verbatim>\<open>check_blowouts\<close> builds for one game (the Game
  Summary). The keys \<^verbatim>\<open>is_blowout\<close> and \<^verbatim>\<open>analysis\<close> are the fields \<open>blowout\<close> and
  \<open>analysis_dict\<close>.
\<close>

record game_data =
  game_pk :: json
  date :: string
  away_team :: json
  home_team :: json
  away_score :: json
  home_score :: json
  status :: string
  blowout :: bool
  analysis_dict :: "analysis option"

text \<open>
  What a poll cycle does outside itself, in order: the requests it sends, the rows it
  upserts, the calls of the evaluator, the lines it logs and the table it prints.
\<close>

datatype event =
    Fetch_schedule string
  | Fetch_game_data json
  | Is_blowout json
  | Upsert json
  | Log log_entry
  | Print_results string "game_data list"

text \<open>
  The world of a poll cycle: the answers of the statistics API to the requests still to
  come (\<open>None\<close> is a \<^verbatim>\<open>RequestException\<close>), the answers of the store to the upserts still to
  come (\<open>False\<close> is an exception or a result with an error), and the events so far.
\<close>

record world =
  responses :: "json option list"
  store_answers :: "bool list"
  trace :: "event list"

definition emit :: "event \<Rightarrow> world \<Rightarrow> world" where
  "emit ev w = w\<lparr>trace := trace w @ [ev]\<rparr>"

definition next_response :: "world \<Rightarrow> json option \<times> world" where
  "next_response w =
     (case responses w of
        [] \<Rightarrow> (None, w)
      | r # rest \<Rightarrow> (r, w\<lparr>responses := rest\<rparr>))"

text \<open>
  \<^verbatim>\<open>fetch_schedule\<close> and \<^verbatim>\<open>fetch_game_data\<close>: the body of the response, or \<^verbatim>\<open>None\<close> after
  logging a failed request.
\<close>

definition fetch_schedule :: "string \<Rightarrow> world \<Rightarrow> json option \<times> world" where
  "fetch_schedule d w =
     (case next_response (emit (Fetch_schedule d) w) of
        (None, w') \<Rightarrow> (None, emit (Log (LogError ''Error fetching schedule'')) w')
      | (Some body, w') \<Rightarrow> (Some body, w'))"

definition fetch_game_data :: "json \<Rightarrow> world \<Rightarrow> json option \<times> world" where
  "fetch_game_data pk w =
     (case next_response (emit (Fetch_game_data pk) w) of
        (None, w') \<Rightarrow> (None, emit (Log (LogError ''Error fetching game data'')) w')
      | (Some body, w') \<Rightarrow> (Some body, w'))"

text \<open>
  The dictionary \<^verbatim>\<open>data\<close> of \<^verbatim>\<open>update_supabase\<close>, without \<^verbatim>\<open>updated_at\<close> (the clock). The
  two analysis columns are \<^verbatim>\<open>game_data['analysis'].get(..., None)\<close>.
\<close>

definition supabase_data :: "game_data \<Rightarrow> json" where
  "supabase_data gd =
     JDict [(''game_id'', game_pk gd),
            (''date'', JStr (date gd)),
            (''away_team'', away_team gd),
            (''home_team'', home_team gd),
            (''away_score'', away_score gd),
            (''home_score'', home_score gd),
            (''is_blowout'', JBool (blowout gd)),
            (''through_6_lead'',
               (case analysis_dict gd of None \<Rightarrow> JNull | Some an \<Rightarrow> JInt (through_6_lead an))),
            (''maintained_lead'',
               (case analysis_dict gd of None \<Rightarrow> JNull | Some an \<Rightarrow> JBool (maintained_lead an))),
            (''status'', JStr (status gd))]"

text \<open>
  \<^verbatim>\<open>update_supabase\<close>: one upsert, then one log line that depends on the store's answer.
  Every exception is caught inside, so the method always returns.
\<close>

definition update_supabase :: "game_data \<Rightarrow> world \<Rightarrow> world" where
  "update_supabase gd w =
     (let w1 = emit (Upsert (supabase_data gd)) w
      in case store_answers w1 of
           True # rest \<Rightarrow>
             emit (Log (LogInfo ''Successfully updated Supabase for game'')) (w1\<lparr>store_answers := rest\<rparr>)
         | False # rest \<Rightarrow>
             emit (Log (LogError ''Error updating Supabase'')) (w1\<lparr>store_answers := rest\<rparr>)
         | [] \<Rightarrow> emit (Log (LogError ''Error updating Supabase'')) w1)"

text \<open>A chain \<^verbatim>\<open>x.get(k1, d1).get(k2, d2)...\<close>, read from the left.\<close>

fun get_chain :: "json \<Rightarrow> (string \<times> json) list \<Rightarrow> py_error + json" where
  "get_chain x [] = Inr x"
| "get_chain x ((k, d) # rest) =
     (case dict_get x k d of
        Inl e \<Rightarrow> Inl e
      | Inr y \<Rightarrow> get_chain y rest)"

text \<open>\<^verbatim>\<open>d[k] = v\<close> on a dictionary: the key keeps its place, a new key goes last.\<close>

fun alist_set :: "string \<Rightarrow> json \<Rightarrow> (string \<times> json) list \<Rightarrow> (string \<times> json) list" where
  "alist_set k v [] = [(k, v)]"
| "alist_set k v (p # ps) = (if fst p = k then (k, v) # ps else p # alist_set k v ps)"

fun dict_set :: "json \<Rightarrow> string \<Rightarrow> json \<Rightarrow> py_error + json" where
  "dict_set (JDict kvs) k v = Inr (JDict (alist_set k v kvs))"
| "dict_set _ k v = Inl TypeError"

text \<open>
  The body of the loop \<^verbatim>\<open>for game in games\<close>: everything the cycle does for one game. The
  result is the exception that left the body, if any, the world, and \<^verbatim>\<open>game_results\<close>.
  No handler encloses the body, so an exception ends the whole cycle.
\<close>

definition process_game ::
  "string \<Rightarrow> json \<Rightarrow> world \<Rightarrow> game_data list \<Rightarrow> py_error option \<times> world \<times> game_data list" where
  "process_game d game w results =
     (case dict_get game ''gamePk'' JNull of
        Inl e \<Rightarrow> (Some e, w, results)
      | Inr pk \<Rightarrow>
          if \<not> truthy pk then (None, w, results)
          else
     (case get_chain game [(''teams'', JDict []), (''away'', JDict []), (''team'', JDict []),
                           (''name'', JStr ''Unknown'')] of
        Inl e \<Rightarrow> (Some e, w, results)
      | Inr away_name \<Rightarrow>
     (case get_chain game [(''teams'', JDict []), (''home'', JDict []), (''team'', JDict []),
                           (''name'', JStr ''Unknown'')] of
        Inl e \<Rightarrow> (Some e, w, results)
      | Inr home_name \<Rightarrow>
     (case get_chain game [(''teams'', JDict []), (''away'', JDict []), (''score'', JInt 0)] of
        Inl e \<Rightarrow> (Some e, w, results)
      | Inr away_runs \<Rightarrow>
     (case get_chain game [(''teams'', JDict []), (''home'', JDict []), (''score'', JInt 0)] of
        Inl e \<Rightarrow> (Some e, w, results)
      | Inr home_runs \<Rightarrow>
     (case get_chain game [(''status'', JDict []), (''codedGameState'', JNull)] of
        Inl e \<Rightarrow> (Some e, w, results)
      | Inr coded \<Rightarrow>
          if coded \<noteq> JStr ''F''
          then (None,
                update_supabase
                  \<lparr>game_pk = pk, date = d, away_team = away_name, home_team = home_name,
                   away_score = away_runs, home_score = home_runs,
                   status = ''In Progress'', blowout = False, analysis_dict = None\<rparr> w,
                results)
          else
     (case fetch_game_data pk w of
        (None, w1) \<Rightarrow> (None, w1, results)
      | (Some detailed_data, w1) \<Rightarrow>
          if \<not> truthy detailed_data then (None, w1, results)
          else
     (case get_chain detailed_data [(''liveData'', JDict []), (''linescore'', JDict [])] of
        Inl e \<Rightarrow> (Some e, w1, results)
      | Inr linescore \<Rightarrow>
     (case dict_set game ''linescore'' linescore of
        Inl e \<Rightarrow> (Some e, w1, results)
      | Inr game' \<Rightarrow>
     (case is_blowout game' of
        (Inl e, logged) \<Rightarrow> (Some e, foldl (\<lambda>v l. emit (Log l) v) (emit (Is_blowout game') w1) logged, results)
      | (Inr (b, an), logged) \<Rightarrow>
          let w2 = foldl (\<lambda>v l. emit (Log l) v) (emit (Is_blowout game') w1) logged;
              gd = \<lparr>game_pk = pk, date = d, away_team = away_name, home_team = home_name,
                    away_score = away_runs, home_score = home_runs,
                    status = ''Final'', blowout = b, analysis_dict = an\<rparr>
          in (None, update_supabase gd w2, results @ [gd])))))))))))"

text \<open>The loop: the games in order, until one raises.\<close>

fun process_games ::
  "string \<Rightarrow> json list \<Rightarrow> world \<Rightarrow> game_data list \<Rightarrow> py_error option \<times> world \<times> game_data list" where
  "process_games d [] w results = (None, w, results)"
| "process_games d (game # rest) w results =
     (case process_game d game w results of
        (Some e, w', results') \<Rightarrow> (Some e, w', results')
      | (None, w', results') \<Rightarrow> process_games d rest w' results')"

text \<open>\<^verbatim>\<open>x[0]\<close>, and the elements that \<^verbatim>\<open>for game in x\<close> visits.\<close>

fun first_item :: "json \<Rightarrow> py_error + json" where
  "first_item (JList (x # xs)) = Inr x"
| "first_item (JList []) = Inl IndexError"
| "first_item (JStr (c # s)) = Inr (JStr [c])"
| "first_item (JStr []) = Inl IndexError"
| "first_item (JDict kvs) = Inl KeyError"
| "first_item _ = Inl TypeError"

fun items :: "json \<Rightarrow> py_error + json list" where
  "items (JList xs) = Inr xs"
| "items (JStr s) = Inr (map (\<lambda>c. JStr [c]) s)"
| "items (JDict kvs) = Inr (map (\<lambda>p. JStr (fst p)) kvs)"
| "items _ = Inl TypeError"

text \<open>
  \<^verbatim>\<open>check_blowouts\<close> for a date (the one given, or today's when none is): the schedule, its
  first date, the games of that date, the loop, the table. \<^verbatim>\<open>len(games)\<close> raises on the
  values \<open>items\<close> raises on. The result is the exception that left the method, if any, and
  the world.
\<close>

definition check_blowouts :: "string \<Rightarrow> world \<Rightarrow> py_error option \<times> world" where
  "check_blowouts d w =
     (case fetch_schedule d (emit (Log (LogInfo ''Checking for blowouts on'')) w) of
        (None, w1) \<Rightarrow> (None, emit (Log (LogError ''No data received from API'')) w1)
      | (Some data, w1) \<Rightarrow>
          if \<not> truthy data then (None, emit (Log (LogError ''No data received from API'')) w1)
          else
     (case dict_get data ''dates'' (JList []) of
        Inl e \<Rightarrow> (Some e, w1)
      | Inr dates \<Rightarrow>
          if \<not> truthy dates
          then (None, emit (Log (LogError ''No dates found in API response for'')) w1)
          else
     (case first_item dates of
        Inl e \<Rightarrow> (Some e, w1)
      | Inr day \<Rightarrow>
     (case dict_get day ''games'' (JList []) of
        Inl e \<Rightarrow> (Some e, w1)
      | Inr games \<Rightarrow>
          if \<not> truthy games then (None, emit (Log (LogInfo ''No games scheduled for'')) w1)
          else
     (case items games of
        Inl e \<Rightarrow> (Some e, w1)
      | Inr gs \<Rightarrow>
     (case process_games d gs (emit (Log (LogInfo ''Found games to check'')) w1) [] of
        (Some e, w2, results) \<Rightarrow> (Some e, w2)
      | (None, w2, results) \<Rightarrow> (None, emit (Print_results d results) w2)))))))"

section \<open>Inning sequences\<close>

text \<open>
  The inning entries a game dictionary carries, when it has the shape the API documents:
  a dictionary whose \<^verbatim>\<open>linescore\<close>, if present, is a dictionary whose \<^verbatim>\<open>innings\<close>, if
  present, is a list. An absent key stands for no innings.
\<close>

definition recorded_innings :: "json \<Rightarrow> json list option" where
  "recorded_innings game =
     (case game of
        JDict kvs \<Rightarrow>
          (case map_of kvs ''linescore'' of
             None \<Rightarrow> Some []
           | Some (JDict ls) \<Rightarrow>
               (case map_of ls ''innings'' of
                  None \<Rightarrow> Some []
                | Some (JList xs) \<Rightarrow> Some xs
                | Some _ \<Rightarrow> None)
           | Some _ \<Rightarrow> None)
      | _ \<Rightarrow> None)"

text \<open>
  An Inning Line: the entry is a dictionary whose \<^verbatim>\<open>home\<close> and \<^verbatim>\<open>away\<close> are dictionaries
  with an integer \<^verbatim>\<open>runs\<close>. The result is (home runs, away runs); other keys of the
  entry are ignored.
\<close>

fun inning_line :: "json \<Rightarrow> (int \<times> int) option" where
  "inning_line (JDict kvs) =
     (case (map_of kvs ''home'', map_of kvs ''away'') of
        (Some (JDict h), Some (JDict a)) \<Rightarrow>
          (case (map_of h ''runs'', map_of a ''runs'') of
             (Some (JInt m), Some (JInt n)) \<Rightarrow> Some (m, n)
           | _ \<Rightarrow> None)
      | _ \<Rightarrow> None)"
| "inning_line _ = None"

text \<open>Cumulative runs of an inning sequence, and the absolute run differential.\<close>

definition home_total :: "(int \<times> int) list \<Rightarrow> int" where
  "home_total ls = sum_list (map fst ls)"

definition away_total :: "(int \<times> int) list \<Rightarrow> int" where
  "away_total ls = sum_list (map snd ls)"

definition lead :: "(int \<times> int) list \<Rightarrow> int" where
  "lead ls = \<bar>home_total ls - away_total ls\<bar>"


text \<open>
  A run field is missing from an inning entry: the entry has no record for the team, or
  the team's record has no \<^verbatim>\<open>runs\<close>.
\<close>

definition runs_missing :: "string \<Rightarrow> json \<Rightarrow> bool" where
  "runs_missing side e =
     (case e of
        JDict kvs \<Rightarrow>
          (case map_of kvs side of
             None \<Rightarrow> True
           | Some (JDict t) \<Rightarrow> map_of t ''runs'' = None
           | Some _ \<Rightarrow> False)
      | _ \<Rightarrow> False)"

text \<open>The same entry with the missing field written out as an explicit 0.\<close>

definition with_zero_runs :: "string \<Rightarrow> json \<Rightarrow> json" where
  "with_zero_runs side e =
     (case e of
        JDict kvs \<Rightarrow>
          (case map_of kvs side of
             None \<Rightarrow> JDict (alist_set side (JDict [(''runs'', JInt 0)]) kvs)
           | Some (JDict t) \<Rightarrow> JDict (alist_set side (JDict (alist_set ''runs'' (JInt 0) t)) kvs)
           | Some _ \<Rightarrow> e)
      | _ \<Rightarrow> e)"

text \<open>
  A scheduled game is final: its \<^verbatim>\<open>status\<close> record has the coded game state \<^verbatim>\<open>"F"\<close>.
\<close>

definition is_final :: "json \<Rightarrow> bool" where
  "is_final game =
     (case game of
        JDict kvs \<Rightarrow>
          (case map_of kvs ''status'' of
             Some (JDict st) \<Rightarrow> map_of st ''codedGameState'' = Some (JStr ''F'')
           | _ \<Rightarrow> False)
      | _ \<Rightarrow> False)"

text \<open>The identifier of a scheduled game, if it has one.\<close>

definition game_id :: "json \<Rightarrow> json option" where
  "game_id game = (case game of JDict kvs \<Rightarrow> map_of kvs ''gamePk'' | _ \<Rightarrow> None)"



section \<open>Sample games\<close>

text \<open>An inning entry and a game dictionary as the API sends them, cut down to the keys read.\<close>

definition inning_entry :: "int \<Rightarrow> int \<Rightarrow> json" where
  "inning_entry h a =
     JDict [(''num'', JInt 1),
            (''home'', JDict [(''runs'', JInt h), (''hits'', JInt 0)]),
            (''away'', JDict [(''runs'', JInt a), (''hits'', JInt 0)])]"

definition game_of :: "json list \<Rightarrow> json" where
  "game_of innings =
     JDict [(''gamePk'', JInt 745001),
            (''status'', JDict [(''codedGameState'', JStr ''F'')]),
            (''linescore'', JDict [(''innings'', JList innings)])]"

definition innings_of :: "(int \<times> int) list \<Rightarrow> json list" where
  "innings_of ls = map (\<lambda>(h, a). inning_entry h a) ls"

text \<open>Home 8, away 1 after six innings, and no inning after the sixth.\<close>

definition scenario_a :: "(int \<times> int) list" where
  "scenario_a = [(1, 0), (2, 0), (0, 1), (3, 0), (1, 0), (1, 0)]"

text \<open>Home 6, away 3 after six innings; the later innings do not matter.\<close>

definition scenario_b :: "(int \<times> int) list" where
  "scenario_b = [(1, 1), (2, 0), (0, 1), (1, 0), (1, 1), (1, 0)]"

text \<open>A lead of 6 after six innings that the seventh inning cuts to 4.\<close>

definition scenario_c :: "(int \<times> int) list" where
  "scenario_c = [(2, 0), (1, 0), (1, 0), (1, 0), (1, 0), (0, 0), (0, 2), (5, 0)]"



text \<open>A final game whose first inning has \<^verbatim>\<open>null\<close> where the away record should be.\<close>

definition null_away_game :: json where
  "null_away_game =
     game_of [JDict [(''num'', JInt 1), (''home'', JDict [(''runs'', JInt 1)]), (''away'', JNull)]]"

text \<open>
  One inning, home 5: with no away record, with the away runs an explicit 0, and with the
  away runs a string.
\<close>

definition away_missing :: json where
  "away_missing = JDict [(''num'', JInt 1), (''home'', JDict [(''runs'', JInt 5)])]"

definition away_zero :: json where
  "away_zero = JDict [(''num'', JInt 1), (''home'', JDict [(''runs'', JInt 5)]),
                     (''away'', JDict [(''runs'', JInt 0)])]"

definition away_malformed :: json where
  "away_malformed = JDict [(''num'', JInt 1), (''home'', JDict [(''runs'', JInt 5)]),
                          (''away'', JDict [(''runs'', JStr ''x'')])]"

section \<open>The evaluator on an inning sequence\<close>

lemma inning_line_home: "inning_line e = Some (m, n) \<Longrightarrow> side_runs ''home'' e = Inr (JInt m)"
  by (cases e) (auto simp: side_runs_def split: option.splits json.splits)

lemma inning_line_away: "inning_line e = Some (m, n) \<Longrightarrow> side_runs ''away'' e = Inr (JInt n)"
  by (cases e) (auto simp: side_runs_def split: option.splits json.splits)

lemma sum_runs_home:
  "map inning_line xs = map Some ls \<Longrightarrow> sum_runs ''home'' acc xs = Inr (acc + home_total ls)"
proof (induction xs arbitrary: acc ls)
  case Nil
  then show ?case by (simp add: home_total_def)
next
  case (Cons x xs)
  then obtain m n ls' where ls: "ls = (m, n) # ls'" and x: "inning_line x = Some (m, n)"
    and rest: "map inning_line xs = map Some ls'"
    by (cases ls) auto
  show ?case
    using Cons.IH [OF rest] inning_line_home [OF x]
    by (simp add: ls home_total_def)
qed

lemma sum_runs_away:
  "map inning_line xs = map Some ls \<Longrightarrow> sum_runs ''away'' acc xs = Inr (acc + away_total ls)"
proof (induction xs arbitrary: acc ls)
  case Nil
  then show ?case by (simp add: away_total_def)
next
  case (Cons x xs)
  then obtain m n ls' where ls: "ls = (m, n) # ls'" and x: "inning_line x = Some (m, n)"
    and rest: "map inning_line xs = map Some ls'"
    by (cases ls) auto
  show ?case
    using Cons.IH [OF rest] inning_line_away [OF x]
    by (simp add: ls away_total_def)
qed

lemma is_blowout_try_recorded:
  "recorded_innings game = Some xs \<Longrightarrow>
   is_blowout_try game =
     (if xs = [] then Inr (False, None)
      else
        (case sum_runs ''home'' 0 (take 6 xs) of
           Inl e \<Rightarrow> Inl e
         | Inr cum_home \<Rightarrow>
        (case sum_runs ''away'' 0 (take 6 xs) of
           Inl e \<Rightarrow> Inl e
         | Inr cum_away \<Rightarrow>
             let an = \<lparr>through_6_home = cum_home, through_6_away = cum_away,
                       through_6_lead = \<bar>cum_home - cum_away\<bar>, maintained_lead = True\<rparr>
             in if \<bar>cum_home - cum_away\<bar> < RUN_THRESHOLD then Inr (False, Some an)
                else scan_innings cum_home cum_away an (drop 6 xs))))"
  by (auto simp: recorded_innings_def is_blowout_try_def Let_def split: json.splits option.splits sum.splits)

lemma all_upto_Suc:
  "(\<forall>k. 0 < k \<and> k \<le> Suc n \<longrightarrow> P k) \<longleftrightarrow> P (Suc 0) \<and> (\<forall>k. 0 < k \<and> k \<le> n \<longrightarrow> P (Suc k))"
proof
  assume h: "\<forall>k. 0 < k \<and> k \<le> Suc n \<longrightarrow> P k"
  show "P (Suc 0) \<and> (\<forall>k. 0 < k \<and> k \<le> n \<longrightarrow> P (Suc k))"
    using h by auto
next
  assume h: "P (Suc 0) \<and> (\<forall>k. 0 < k \<and> k \<le> n \<longrightarrow> P (Suc k))"
  show "\<forall>k. 0 < k \<and> k \<le> Suc n \<longrightarrow> P k"
  proof (intro allI impI)
    fix k assume k: "0 < k \<and> k \<le> Suc n"
    then obtain j where j: "k = Suc j" by (cases k) auto
    show "P k"
    proof (cases j)
      case 0
      with h j show ?thesis by simp
    next
      case (Suc i)
      with h j k show ?thesis by simp
    qed
  qed
qed

lemma scan_innings_lines:
  "map inning_line xs = map Some ls \<Longrightarrow>
   scan_innings h a an xs =
     Inr (if \<forall>k. 0 < k \<and> k \<le> length ls \<longrightarrow>
                RUN_THRESHOLD \<le> \<bar>(h + home_total (take k ls)) - (a + away_total (take k ls))\<bar>
          then (True, Some an)
          else (False, Some (an\<lparr>maintained_lead := False\<rparr>)))"
proof (induction xs arbitrary: h a ls)
  case Nil
  then show ?case by simp
next
  case (Cons x xs)
  then obtain m n ls' where ls: "ls = (m, n) # ls'" and x: "inning_line x = Some (m, n)"
    and rest: "map inning_line xs = map Some ls'"
    by (cases ls) auto
  show ?case
    using Cons.IH [OF rest, of "h + m" "a + n"] inning_line_home [OF x] inning_line_away [OF x]
    by (simp add: ls all_upto_Suc home_total_def away_total_def add.assoc)
qed

lemma scan_innings_stop:
  "map inning_line xs = map Some ls \<Longrightarrow> ls \<noteq> [] \<Longrightarrow>
   (\<forall>k. 0 < k \<and> k < length ls \<longrightarrow>
        RUN_THRESHOLD \<le> \<bar>(h + home_total (take k ls)) - (a + away_total (take k ls))\<bar>) \<Longrightarrow>
   \<bar>(h + home_total ls) - (a + away_total ls)\<bar> < RUN_THRESHOLD \<Longrightarrow>
   scan_innings h a an (xs @ rest) = Inr (False, Some (an\<lparr>maintained_lead := False\<rparr>))"
proof (induction xs arbitrary: h a ls)
  case Nil
  then show ?case by simp
next
  case (Cons x xs)
  from Cons.prems(1) obtain m n ls' where ls: "ls = (m, n) # ls'" and x: "inning_line x = Some (m, n)"
    and rest: "map inning_line xs = map Some ls'"
    by (cases ls) auto
  show ?case
  proof (cases "ls' = []")
    case True
    with Cons.prems(4) inning_line_home [OF x] inning_line_away [OF x] show ?thesis
      by (simp add: ls home_total_def away_total_def)
  next
    case False
    have first: "RUN_THRESHOLD \<le> \<bar>(h + m) - (a + n)\<bar>"
      using Cons.prems(3) [rule_format, of "Suc 0"] False
      by (simp add: ls home_total_def away_total_def)
    have later: "\<forall>k. 0 < k \<and> k < length ls' \<longrightarrow>
        RUN_THRESHOLD \<le> \<bar>((h + m) + home_total (take k ls')) - ((a + n) + away_total (take k ls'))\<bar>"
    proof (intro allI impI)
      fix k assume "0 < k \<and> k < length ls'"
      then show "RUN_THRESHOLD \<le> \<bar>((h + m) + home_total (take k ls')) - ((a + n) + away_total (take k ls'))\<bar>"
        using Cons.prems(3) [rule_format, of "Suc k"]
        by (simp add: ls home_total_def away_total_def add.assoc)
    qed
    have last: "\<bar>((h + m) + home_total ls') - ((a + n) + away_total ls')\<bar> < RUN_THRESHOLD"
      using Cons.prems(4) by (simp add: ls home_total_def away_total_def add.assoc)
    show ?thesis
      using Cons.IH [OF rest False later last] first inning_line_home [OF x] inning_line_away [OF x]
      by simp
  qed
qed


lemma is_blowout_recorded_lines:
  assumes rec: "recorded_innings game = Some (xs @ later)"
    and lines: "map inning_line xs = map Some ls"
    and ne: "ls \<noteq> []"
    and six: "length ls \<le> 6" "later \<noteq> [] \<longrightarrow> length ls = 6"
  shows "is_blowout_try game =
     (let an = \<lparr>through_6_home = home_total ls, through_6_away = away_total ls,
                through_6_lead = lead ls, maintained_lead = True\<rparr>
      in if lead ls < RUN_THRESHOLD then Inr (False, Some an)
         else scan_innings (home_total ls) (away_total ls) an later)"
proof -
  have len: "length xs = length ls"
    using lines by (metis length_map)
  have t: "take 6 (xs @ later) = xs"
    using six len by (cases "later = []") auto
  have d: "drop 6 (xs @ later) = later"
    using six len by (cases "later = []") auto
  have nonempty: "xs @ later \<noteq> []"
    using ne len by auto
  show ?thesis
    unfolding is_blowout_try_recorded [OF rec] t d
    using nonempty
    by (simp add: sum_runs_home [OF lines] sum_runs_away [OF lines] lead_def Let_def)
qed

lemma totals_take_add:
  "home_total (take n ls) + home_total (take k (drop n ls)) = home_total (take (n + k) ls)"
  "away_total (take n ls) + away_total (take k (drop n ls)) = away_total (take (n + k) ls)"
  by (simp_all add: home_total_def away_total_def take_add)

lemma is_blowout_try_lines:
  assumes rec: "recorded_innings game = Some xs"
    and lines: "map inning_line xs = map Some ls"
    and ne: "ls \<noteq> []"
  shows "is_blowout_try game =
     Inr (if lead (take 6 ls) < RUN_THRESHOLD
          then (False, Some \<lparr>through_6_home = home_total (take 6 ls),
                  through_6_away = away_total (take 6 ls),
                  through_6_lead = lead (take 6 ls), maintained_lead = True\<rparr>)
          else if \<forall>k. 6 < k \<and> k \<le> length ls \<longrightarrow> RUN_THRESHOLD \<le> lead (take k ls)
          then (True, Some \<lparr>through_6_home = home_total (take 6 ls),
                  through_6_away = away_total (take 6 ls),
                  through_6_lead = lead (take 6 ls), maintained_lead = True\<rparr>)
          else (False, Some \<lparr>through_6_home = home_total (take 6 ls),
                  through_6_away = away_total (take 6 ls),
                  through_6_lead = lead (take 6 ls), maintained_lead = False\<rparr>))"
proof -
  have len: "length xs = length ls"
    using lines by (metis length_map)
  have rec': "recorded_innings game = Some (take 6 xs @ drop 6 xs)"
    using rec by simp
  have l6: "map inning_line (take 6 xs) = map Some (take 6 ls)"
    using lines by (simp add: take_map [symmetric])
  have ld: "map inning_line (drop 6 xs) = map Some (drop 6 ls)"
    using lines by (simp add: drop_map [symmetric])
  have ne6: "take 6 ls \<noteq> []"
    using ne by (cases ls) auto
  have six: "length (take 6 ls) \<le> 6" "drop 6 xs \<noteq> [] \<longrightarrow> length (take 6 ls) = 6"
    using len by auto
  have shift: "(\<forall>k. 0 < k \<and> k \<le> length (drop 6 ls) \<longrightarrow>
          RUN_THRESHOLD \<le> \<bar>(home_total (take 6 ls) + home_total (take k (drop 6 ls)))
                              - (away_total (take 6 ls) + away_total (take k (drop 6 ls)))\<bar>)
        \<longleftrightarrow> (\<forall>k. 6 < k \<and> k \<le> length ls \<longrightarrow> RUN_THRESHOLD \<le> lead (take k ls))"
    (is "?L \<longleftrightarrow> ?R")
  proof
    assume L: ?L
    show ?R
    proof (intro allI impI)
      fix k assume k: "6 < k \<and> k \<le> length ls"
      then have "0 < k - 6 \<and> k - 6 \<le> length (drop 6 ls)" by auto
      from L [rule_format, OF this] k show "RUN_THRESHOLD \<le> lead (take k ls)"
        by (simp add: totals_take_add lead_def)
    qed
  next
    assume R: ?R
    show ?L
    proof (intro allI impI)
      fix k assume k: "0 < k \<and> k \<le> length (drop 6 ls)"
      then have "6 < 6 + k \<and> 6 + k \<le> length ls" by auto
      from R [rule_format, OF this]
      show "RUN_THRESHOLD \<le> \<bar>(home_total (take 6 ls) + home_total (take k (drop 6 ls)))
                              - (away_total (take 6 ls) + away_total (take k (drop 6 ls)))\<bar>"
        by (simp add: totals_take_add lead_def)
    qed
  qed
  show ?thesis
    unfolding is_blowout_recorded_lines [OF rec' l6 ne6 six] scan_innings_lines [OF ld] shift
    by (auto simp: Let_def)
qed

lemma is_blowout_try_lines_ex:
  assumes "recorded_innings game = Some xs" and "map inning_line xs = map Some ls" and "ls \<noteq> []"
  shows "\<exists>b m. is_blowout_try game =
           Inr (b, Some \<lparr>through_6_home = home_total (take 6 ls),
                  through_6_away = away_total (take 6 ls),
                  through_6_lead = lead (take 6 ls), maintained_lead = m\<rparr>)"
  unfolding is_blowout_try_lines [OF assms] by auto

lemma is_blowout_try_first_drop:
  assumes rec: "recorded_innings game = Some (xs @ rest)"
    and lines: "map inning_line xs = map Some ls"
    and long: "6 < length ls"
    and six: "RUN_THRESHOLD \<le> lead (take 6 ls)"
    and kept: "\<forall>i. 6 < i \<and> i < length ls \<longrightarrow> RUN_THRESHOLD \<le> lead (take i ls)"
    and lost: "lead ls < RUN_THRESHOLD"
  shows "is_blowout_try game =
           Inr (False, Some \<lparr>through_6_home = home_total (take 6 ls),
                  through_6_away = away_total (take 6 ls),
                  through_6_lead = lead (take 6 ls), maintained_lead = False\<rparr>)"
proof -
  have len: "length xs = length ls"
    using lines by (metis length_map)
  have rec': "recorded_innings game = Some (take 6 xs @ (drop 6 xs @ rest))"
    using rec by simp
  have l6: "map inning_line (take 6 xs) = map Some (take 6 ls)"
    using lines by (simp add: take_map [symmetric])
  have ld: "map inning_line (drop 6 xs) = map Some (drop 6 ls)"
    using lines by (simp add: drop_map [symmetric])
  have ne6: "take 6 ls \<noteq> []" and ned: "drop 6 ls \<noteq> []"
    using long by auto
  have lens: "length (take 6 ls) \<le> 6" "drop 6 xs @ rest \<noteq> [] \<longrightarrow> length (take 6 ls) = 6"
    using long by auto
  have kept': "\<forall>k. 0 < k \<and> k < length (drop 6 ls) \<longrightarrow>
          RUN_THRESHOLD \<le> \<bar>(home_total (take 6 ls) + home_total (take k (drop 6 ls)))
                              - (away_total (take 6 ls) + away_total (take k (drop 6 ls)))\<bar>"
  proof (intro allI impI)
    fix k assume k: "0 < k \<and> k < length (drop 6 ls)"
    then have "6 < 6 + k \<and> 6 + k < length ls" by auto
    from kept [rule_format, OF this]
    show "RUN_THRESHOLD \<le> \<bar>(home_total (take 6 ls) + home_total (take k (drop 6 ls)))
                              - (away_total (take 6 ls) + away_total (take k (drop 6 ls)))\<bar>"
      by (simp add: totals_take_add lead_def)
  qed
  have whole: "home_total (take 6 ls) + home_total (drop 6 ls) = home_total ls"
    "away_total (take 6 ls) + away_total (drop 6 ls) = away_total ls"
    using totals_take_add [of 6 ls "length ls - 6"] long by simp_all
  have lost': "\<bar>(home_total (take 6 ls) + home_total (drop 6 ls))
                 - (away_total (take 6 ls) + away_total (drop 6 ls))\<bar> < RUN_THRESHOLD"
    using lost by (simp add: whole lead_def)
  show ?thesis
    unfolding is_blowout_recorded_lines [OF rec' l6 ne6 lens]
    using six scan_innings_stop [OF ld ned kept' lost']
    by (simp add: Let_def)
qed

lemma scan_innings_frame:
  "scan_innings h a an xs = Inr (b, r) \<Longrightarrow>
   r = Some (if b then an else an\<lparr>maintained_lead := False\<rparr>)"
proof (induction xs arbitrary: h a)
  case Nil
  then show ?case by auto
next
  case (Cons x xs)
  then show ?case
    by (auto split: sum.splits if_splits)
qed

lemma is_blowout_try_consistent:
  assumes "is_blowout_try game = Inr (b, Some an)"
  shows "through_6_lead an = \<bar>through_6_home an - through_6_away an\<bar> \<and> (b \<longrightarrow> maintained_lead an)"
  using assms
  by (auto simp: is_blowout_try_def Let_def split: sum.splits if_splits dest!: scan_innings_frame)

subsection \<open>Entries that read alike\<close>

lemma map_of_alist_set: "map_of (alist_set k v kvs) = (map_of kvs)(k \<mapsto> v)"
  by (induction kvs) auto

lemma side_runs_with_zero:
  "runs_missing side e \<Longrightarrow> side_runs s (with_zero_runs side e) = side_runs s e"
  by (auto simp: runs_missing_def with_zero_runs_def side_runs_def map_of_alist_set
      split: json.splits option.splits)

lemma sum_runs_same:
  "list_all2 (\<lambda>x y. \<forall>s. side_runs s x = side_runs s y) xs ys \<Longrightarrow>
   sum_runs s acc xs = sum_runs s acc ys"
proof (induction xs ys arbitrary: acc rule: list_all2_induct)
  case Nil
  then show ?case by simp
next
  case (Cons x xs y ys)
  then show ?case by (simp split: sum.splits)
qed

lemma scan_innings_same:
  "list_all2 (\<lambda>x y. \<forall>s. side_runs s x = side_runs s y) xs ys \<Longrightarrow>
   scan_innings h a an xs = scan_innings h a an ys"
proof (induction xs ys arbitrary: h a rule: list_all2_induct)
  case Nil
  then show ?case by simp
next
  case (Cons x xs y ys)
  then show ?case by (simp split: sum.splits)
qed

lemma is_blowout_same:
  assumes "recorded_innings g1 = Some xs" and "recorded_innings g2 = Some ys"
    and "list_all2 (\<lambda>x y. \<forall>s. side_runs s x = side_runs s y) xs ys"
  shows "is_blowout g1 = is_blowout g2"
proof -
  have e: "xs = [] \<longleftrightarrow> ys = []"
    using assms(3) by (auto simp: list_all2_Nil list_all2_Nil2)
  have t: "list_all2 (\<lambda>x y. \<forall>s. side_runs s x = side_runs s y) (take 6 xs) (take 6 ys)"
    using assms(3) by (rule list_all2_takeI)
  have d: "list_all2 (\<lambda>x y. \<forall>s. side_runs s x = side_runs s y) (drop 6 xs) (drop 6 ys)"
    using assms(3) by (rule list_all2_dropI)
  have "is_blowout_try g1 = is_blowout_try g2"
    unfolding is_blowout_try_recorded [OF assms(1)] is_blowout_try_recorded [OF assms(2)]
      sum_runs_same [OF t] scan_innings_same [OF d] e ..
  then show ?thesis by (simp add: is_blowout_def)
qed

subsection \<open>A game that is not final\<close>

lemma not_final_coded:
  "\<not> is_final game \<Longrightarrow>
   get_chain game [(''status'', JDict []), (''codedGameState'', JNull)] \<noteq> Inr (JStr ''F'')"
  by (cases game) (auto simp: is_final_def split: option.splits json.splits)

lemma update_supabase_world:
  "responses (update_supabase gd w) = responses w"
  "\<exists>l. trace (update_supabase gd w) = trace w @ [Upsert (supabase_data gd), Log l]"
  by (auto simp: update_supabase_def emit_def Let_def split: list.splits bool.splits)

lemma process_game_not_final_eq:
  assumes "\<not> is_final game"
  shows "process_game d game w results =
     (case dict_get game ''gamePk'' JNull of
        Inl e \<Rightarrow> (Some e, w, results)
      | Inr pk \<Rightarrow>
          if \<not> truthy pk then (None, w, results)
          else
     (case get_chain game [(''teams'', JDict []), (''away'', JDict []), (''team'', JDict []),
                           (''name'', JStr ''Unknown'')] of
        Inl e \<Rightarrow> (Some e, w, results)
      | Inr away_name \<Rightarrow>
     (case get_chain game [(''teams'', JDict []), (''home'', JDict []), (''team'', JDict []),
                           (''name'', JStr ''Unknown'')] of
        Inl e \<Rightarrow> (Some e, w, results)
      | Inr home_name \<Rightarrow>
     (case get_chain game [(''teams'', JDict []), (''away'', JDict []), (''score'', JInt 0)] of
        Inl e \<Rightarrow> (Some e, w, results)
      | Inr away_runs \<Rightarrow>
     (case get_chain game [(''teams'', JDict []), (''home'', JDict []), (''score'', JInt 0)] of
        Inl e \<Rightarrow> (Some e, w, results)
      | Inr home_runs \<Rightarrow>
     (case get_chain game [(''status'', JDict []), (''codedGameState'', JNull)] of
        Inl e \<Rightarrow> (Some e, w, results)
      | Inr coded \<Rightarrow>
          (None,
           update_supabase
             \<lparr>game_pk = pk, date = d, away_team = away_name, home_team = home_name,
              away_score = away_runs, home_score = home_runs,
              status = ''In Progress'', blowout = False, analysis_dict = None\<rparr> w,
           results)))))))"
proof -
  have c: "coded \<noteq> JStr ''F''"
    if "get_chain game [(''status'', JDict []), (''codedGameState'', JNull)] = Inr coded" for coded
    using not_final_coded [OF assms] that by auto
  show ?thesis
    unfolding process_game_def
    by (simp only: c not_False_eq_True if_True cong: sum.case_cong if_cong)
qed

lemma process_game_not_final:
  assumes "\<not> is_final game"
  shows "process_game d game w results = (err, w', results') \<Longrightarrow>
         results' = results \<and>
         (w' = w \<and> (err = None \<longrightarrow> (\<forall>pk. game_id game = Some pk \<longrightarrow> \<not> truthy pk)) \<or>
          err = None \<and>
          (\<exists>pk gd. game_id game = Some pk \<and> truthy pk \<and> w' = update_supabase gd w \<and>
             game_pk gd = pk \<and> date gd = d \<and> status gd = ''In Progress'' \<and>
             \<not> blowout gd \<and> analysis_dict gd = None))"
  unfolding process_game_not_final_eq [OF assms]
  by (cases game) (auto simp: game_id_def split: sum.splits if_splits option.splits)

text \<open>A run of games none of which is final sends no request and never calls the evaluator.\<close>

lemma process_games_not_final:
  "\<forall>g\<in>set gs. \<not> is_final g \<Longrightarrow>
   \<exists>err w' evs. process_games d gs w results = (err, w', results) \<and>
     responses w' = responses w \<and> trace w' = trace w @ evs \<and>
     (\<forall>ev\<in>set evs. (\<forall>pk. ev \<noteq> Fetch_game_data pk) \<and> (\<forall>g. ev \<noteq> Is_blowout g))"
proof (induction gs arbitrary: w)
  case Nil
  show ?case by simp
next
  case (Cons g gs)
  obtain err w1 rs where p: "process_game d g w results = (err, w1, rs)"
    by (cases "process_game d g w results") auto
  have nf: "\<not> is_final g" using Cons.prems by simp
  from process_game_not_final [OF nf p]
  have rs: "rs = results"
    and alt: "w1 = w \<or> err = None \<and> (\<exists>gd. w1 = update_supabase gd w)"
    by auto
  have step: "responses w1 = responses w \<and>
      (\<exists>evs. trace w1 = trace w @ evs \<and>
         (\<forall>ev\<in>set evs. (\<forall>pk. ev \<noteq> Fetch_game_data pk) \<and> (\<forall>g. ev \<noteq> Is_blowout g)))"
  proof (cases "w1 = w")
    case True
    then show ?thesis by simp
  next
    case False
    with alt obtain gd where w1: "w1 = update_supabase gd w" by auto
    obtain l where "trace w1 = trace w @ [Upsert (supabase_data gd), Log l]"
      using update_supabase_world(2) [of gd w] w1 by auto
    then show ?thesis
      using update_supabase_world(1) [of gd w] w1 by auto
  qed
  then obtain evs1 where r1: "responses w1 = responses w" and t1: "trace w1 = trace w @ evs1"
    and e1: "\<forall>ev\<in>set evs1. (\<forall>pk. ev \<noteq> Fetch_game_data pk) \<and> (\<forall>g. ev \<noteq> Is_blowout g)"
    by blast
  show ?case
  proof (cases err)
    case (Some e)
    then show ?thesis
      using p rs r1 t1 e1 by (intro exI [of _ "Some e"] exI [of _ w1] exI [of _ evs1]) simp
  next
    case None
    from Cons.prems have "\<forall>g\<in>set gs. \<not> is_final g" by simp
    from Cons.IH [OF this, of w1]
    obtain err2 w2 evs2 where p2: "process_games d gs w1 results = (err2, w2, results)"
      and r2: "responses w2 = responses w1" and t2: "trace w2 = trace w1 @ evs2"
      and e2: "\<forall>ev\<in>set evs2. (\<forall>pk. ev \<noteq> Fetch_game_data pk) \<and> (\<forall>g. ev \<noteq> Is_blowout g)"
      by blast
    show ?thesis
      using p rs None p2 r1 r2 t1 t2 e1 e2
      by (intro exI [of _ err2] exI [of _ w2] exI [of _ "evs1 @ evs2"]) auto
  qed
qed



lemma dict_get_dict: "\<exists>v. dict_get (JDict t) k dflt = Inr v"
  by simp



subsection \<open>The exceptions that leave the evaluator\<close>

text \<open>
  Reading raises \<^verbatim>\<open>AttributeError\<close> or \<^verbatim>\<open>TypeError\<close> only; the handler turns the second
  into a logged \<^verbatim>\<open>(False, {})\<close>, and the first is what a caller can see.
\<close>

lemma dict_get_error: "dict_get x k d = Inl e \<Longrightarrow> e = AttributeError"
  by (cases x) auto

lemma int_add_error: "int_add acc v = Inl e \<Longrightarrow> e = TypeError"
  by (cases v) auto

lemma side_runs_error: "side_runs s i = Inl e \<Longrightarrow> e = AttributeError"
  by (auto simp: side_runs_def split: sum.splits dest: dict_get_error)

lemma sum_runs_error:
  "sum_runs s acc xs = Inl e \<Longrightarrow> e = AttributeError \<or> e = TypeError"
  by (induction xs arbitrary: acc)
    (auto split: sum.splits dest: side_runs_error int_add_error)

lemma scan_innings_error:
  "scan_innings h a an xs = Inl e \<Longrightarrow> e = AttributeError \<or> e = TypeError"
  by (induction xs arbitrary: h a)
    (auto split: sum.splits if_splits dest: side_runs_error int_add_error)

lemma slice_error: "slice_to n x = Inl e \<Longrightarrow> e = TypeError" "slice_from n x = Inl e \<Longrightarrow> e = TypeError"
  by (cases x; auto)+

lemma is_blowout_try_error:
  "is_blowout_try game = Inl e \<Longrightarrow> e = AttributeError \<or> e = TypeError"
  unfolding is_blowout_try_def
  by (auto simp: Let_def split: sum.splits if_splits
      dest: dict_get_error sum_runs_error scan_innings_error slice_error)

lemma is_blowout_escapes:
  "is_blowout game = (Inl e, lg) \<Longrightarrow> e = AttributeError \<and> lg = []"
  using is_blowout_try_error [of game]
  by (auto simp: is_blowout_def split: sum.splits py_error.splits)

lemma is_blowout_caught:
  "is_blowout_try game = Inl TypeError \<Longrightarrow>
   is_blowout game = (Inr (False, None), [LogError ''Error processing game data''])"
  by (simp add: is_blowout_def)

section \<open>The claims\<close>

text \<open>
  Claim C1. For every inning sequence given to the evaluator, the boolean result is true
  if and only if the sequence is not empty, the absolute difference of the cumulative home
  and away runs over the first min(6, length) innings is at least 5, and after every later
  inning the absolute difference of the running totals is still at least 5. Here \<open>ls\<close> is
  the inning sequence that the game's entries \<open>xs\<close> record, and \<open>take k ls\<close> is the game
  after \<open>k\<close> innings.
\<close>

theorem is_blowout_iff:
  assumes "recorded_innings game = Some xs" and "map inning_line xs = map Some ls"
  shows "\<exists>an. is_blowout game =
           (Inr (ls \<noteq> [] \<and> RUN_THRESHOLD \<le> lead (take 6 ls) \<and>
                 (\<forall>k. 6 < k \<and> k \<le> length ls \<longrightarrow> RUN_THRESHOLD \<le> lead (take k ls)), an), [])"
proof (cases "ls = []")
  case True
  with assms have "recorded_innings game = Some []" by simp
  then show ?thesis
    using True by (simp add: is_blowout_def is_blowout_try_recorded)
next
  case False
  show ?thesis
    using False by (simp add: is_blowout_def is_blowout_try_lines [OF assms False])
qed

theorem is_blowout_iff_witness:
  "recorded_innings (game_of (innings_of scenario_a)) = Some (innings_of scenario_a) \<and>
   map inning_line (innings_of scenario_a) = map Some scenario_a \<and>
   (\<exists>an. is_blowout (game_of (innings_of scenario_a)) = (Inr (True, an), []))"
proof -
  have r: "recorded_innings (game_of (innings_of scenario_a)) = Some (innings_of scenario_a)"
    by (simp add: recorded_innings_def game_of_def)
  have l: "map inning_line (innings_of scenario_a) = map Some scenario_a"
    by (simp add: innings_of_def scenario_a_def inning_entry_def)
  have c: "scenario_a \<noteq> [] \<and> RUN_THRESHOLD \<le> lead (take 6 scenario_a) \<and>
           (\<forall>k. 6 < k \<and> k \<le> length scenario_a \<longrightarrow> RUN_THRESHOLD \<le> lead (take k scenario_a))"
    by (simp add: scenario_a_def lead_def home_total_def away_total_def RUN_THRESHOLD_def)
  show ?thesis
    using is_blowout_iff [OF r l] r l c by simp
qed

text \<open>
  Claim C2. For every inning sequence whose lead through six innings is at least 5 and in
  which some later inning \<open>k\<close> leaves the lead below 5, the evaluator returns false with
  \<open>maintained_lead\<close> false. It stops at the first such inning \<open>j\<close>: whatever follows the
  first \<open>j\<close> entries, readable or not, the result is the same, and its analysis holds the
  totals through six innings and the flag set at inning \<open>j\<close>.
\<close>

theorem lead_lost_short_circuit:
  assumes rec: "recorded_innings game = Some xs"
    and lines: "map inning_line xs = map Some ls"
    and six: "RUN_THRESHOLD \<le> lead (take 6 ls)"
    and k: "6 < k" "k \<le> length ls" "lead (take k ls) < RUN_THRESHOLD"
  shows "\<exists>j. 6 < j \<and> j \<le> k \<and> lead (take j ls) < RUN_THRESHOLD \<and>
             (\<forall>i. 6 < i \<and> i < j \<longrightarrow> RUN_THRESHOLD \<le> lead (take i ls)) \<and>
             (\<forall>game' rest. recorded_innings game' = Some (take j xs @ rest) \<longrightarrow>
                is_blowout game' =
                  (Inr (False, Some \<lparr>through_6_home = home_total (take 6 ls),
                          through_6_away = away_total (take 6 ls),
                          through_6_lead = lead (take 6 ls), maintained_lead = False\<rparr>), [])) \<and>
             is_blowout game =
               (Inr (False, Some \<lparr>through_6_home = home_total (take 6 ls),
                       through_6_away = away_total (take 6 ls),
                       through_6_lead = lead (take 6 ls), maintained_lead = False\<rparr>), [])"
proof -
  define j where "j = (LEAST j. 6 < j \<and> lead (take j ls) < RUN_THRESHOLD)"
  have ex: "6 < k \<and> lead (take k ls) < RUN_THRESHOLD"
    using k by simp
  have j: "6 < j \<and> lead (take j ls) < RUN_THRESHOLD"
    unfolding j_def using ex by (rule LeastI)
  have jk: "j \<le> k"
    unfolding j_def using ex by (rule Least_le)
  have first: "\<forall>i. 6 < i \<and> i < j \<longrightarrow> RUN_THRESHOLD \<le> lead (take i ls)"
  proof (intro allI impI)
    fix i assume i: "6 < i \<and> i < j"
    then have "\<not> (6 < i \<and> lead (take i ls) < RUN_THRESHOLD)"
      unfolding j_def using not_less_Least by blast
    with i show "RUN_THRESHOLD \<le> lead (take i ls)" by simp
  qed
  have lj: "map inning_line (take j xs) = map Some (take j ls)"
    using lines by (simp add: take_map [symmetric])
  have len: "length (take j ls) = j"
    using jk k by simp
  have t6: "take 6 (take j ls) = take 6 ls"
    using j by (simp add: min_def)
  have kept: "\<forall>i. 6 < i \<and> i < length (take j ls) \<longrightarrow> RUN_THRESHOLD \<le> lead (take i (take j ls))"
  proof (intro allI impI)
    fix i assume i: "6 < i \<and> i < length (take j ls)"
    then have "take i (take j ls) = take i ls" using len by (simp add: min_def)
    with first i len show "RUN_THRESHOLD \<le> lead (take i (take j ls))" by simp
  qed
  have stop: "is_blowout_try game' =
           Inr (False, Some \<lparr>through_6_home = home_total (take 6 ls),
                  through_6_away = away_total (take 6 ls),
                  through_6_lead = lead (take 6 ls), maintained_lead = False\<rparr>)"
    if "recorded_innings game' = Some (take j xs @ rest)" for game' rest
  proof -
    have long: "6 < length (take j ls)" using j len by simp
    have six': "RUN_THRESHOLD \<le> lead (take 6 (take j ls))" using six by (simp only: t6)
    have lost: "lead (take j ls) < RUN_THRESHOLD" using j by simp
    show ?thesis
      using is_blowout_try_first_drop [OF that lj long six' kept lost] by (simp only: t6)
  qed
  have "recorded_innings game = Some (take j xs @ drop j xs)"
    using rec by simp
  from stop [OF this] stop j jk first show ?thesis
    by (intro exI [of _ j]) (simp add: is_blowout_def)
qed

theorem lead_lost_short_circuit_witness:
  "recorded_innings (game_of (innings_of scenario_c)) = Some (innings_of scenario_c) \<and>
   map inning_line (innings_of scenario_c) = map Some scenario_c \<and>
   RUN_THRESHOLD \<le> lead (take 6 scenario_c) \<and> (6::nat) < 7 \<and> 7 \<le> length scenario_c \<and>
   lead (take 7 scenario_c) < RUN_THRESHOLD \<and>
   is_blowout (game_of (innings_of scenario_c)) =
     (Inr (False, Some \<lparr>through_6_home = 6, through_6_away = 0, through_6_lead = 6,
                        maintained_lead = False\<rparr>), [])"
proof -
  have r: "recorded_innings (game_of (innings_of scenario_c)) = Some (innings_of scenario_c)"
    by (simp add: recorded_innings_def game_of_def)
  have l: "map inning_line (innings_of scenario_c) = map Some scenario_c"
    by (simp add: innings_of_def scenario_c_def inning_entry_def)
  have six: "RUN_THRESHOLD \<le> lead (take 6 scenario_c)"
    by (simp add: scenario_c_def lead_def home_total_def away_total_def RUN_THRESHOLD_def)
  have k: "(6::nat) < 7" "7 \<le> length scenario_c" "lead (take 7 scenario_c) < RUN_THRESHOLD"
    by (simp_all add: scenario_c_def lead_def home_total_def away_total_def RUN_THRESHOLD_def)
  have v: "home_total (take 6 scenario_c) = 6" "away_total (take 6 scenario_c) = 0"
    "lead (take 6 scenario_c) = 6"
    by (simp_all add: scenario_c_def lead_def home_total_def away_total_def)
  from lead_lost_short_circuit [OF r l six k]
  have "is_blowout (game_of (innings_of scenario_c)) =
     (Inr (False, Some \<lparr>through_6_home = 6, through_6_away = 0, through_6_lead = 6,
                        maintained_lead = False\<rparr>), [])"
    unfolding v by blast
  with r l six k show ?thesis by simp
qed

text \<open>
  Claim C3. For every inning sequence that is not empty, if the absolute run differential
  over the first min(6, length) innings \<open>ls\<close> is below 5, the evaluator returns false and an
  analysis with \<open>maintained_lead\<close> true, whatever the entries \<open>later\<close> after the sixth
  inning hold.
\<close>

theorem lead_below_threshold:
  assumes "recorded_innings game = Some (xs @ later)"
    and "map inning_line xs = map Some ls"
    and "ls \<noteq> []" and "length ls \<le> 6" and "later \<noteq> [] \<longrightarrow> length ls = 6"
    and "lead ls < RUN_THRESHOLD"
  shows "is_blowout game =
           (Inr (False, Some \<lparr>through_6_home = home_total ls, through_6_away = away_total ls,
                              through_6_lead = lead ls, maintained_lead = True\<rparr>), [])"
  using assms(6)
  by (simp add: is_blowout_def is_blowout_recorded_lines [OF assms(1-5)] Let_def)

theorem lead_below_threshold_witness:
  "recorded_innings (game_of (innings_of scenario_b @ [JNull, JStr ''rain'']))
     = Some (innings_of scenario_b @ [JNull, JStr ''rain'']) \<and>
   map inning_line (innings_of scenario_b) = map Some scenario_b \<and>
   scenario_b \<noteq> [] \<and> length scenario_b \<le> 6 \<and> length scenario_b = 6 \<and>
   lead scenario_b < RUN_THRESHOLD \<and>
   is_blowout (game_of (innings_of scenario_b @ [JNull, JStr ''rain''])) =
     (Inr (False, Some \<lparr>through_6_home = 6, through_6_away = 3, through_6_lead = 3,
                        maintained_lead = True\<rparr>), [])"
proof -
  have r: "recorded_innings (game_of (innings_of scenario_b @ [JNull, JStr ''rain'']))
             = Some (innings_of scenario_b @ [JNull, JStr ''rain''])"
    by (simp add: recorded_innings_def game_of_def)
  have l: "map inning_line (innings_of scenario_b) = map Some scenario_b"
    by (simp add: innings_of_def scenario_b_def inning_entry_def)
  have s: "scenario_b \<noteq> []" "length scenario_b \<le> 6"
    "[JNull, JStr ''rain''] \<noteq> [] \<longrightarrow> length scenario_b = 6"
    by (simp_all add: scenario_b_def)
  have b: "lead scenario_b < RUN_THRESHOLD"
    by (simp add: scenario_b_def lead_def home_total_def away_total_def RUN_THRESHOLD_def)
  have v: "home_total scenario_b = 6" "away_total scenario_b = 3" "lead scenario_b = 3"
    by (simp_all add: scenario_b_def lead_def home_total_def away_total_def)
  have six: "length scenario_b = 6"
    by (simp add: scenario_b_def)
  show ?thesis
    using lead_below_threshold [OF r l s b] r l s(1,2) six b unfolding v by simp
qed

text \<open>
  Claim C4. For every inning sequence with at least one and fewer than six innings, the
  evaluator reports a blowout exactly when the absolute lead over all the innings is at
  least 5, and the analysis it returns has \<open>maintained_lead\<close> true.
\<close>

theorem fewer_than_six_innings:
  assumes "recorded_innings game = Some xs"
    and "map inning_line xs = map Some ls"
    and "0 < length ls" and "length ls < 6"
  shows "is_blowout game =
           (Inr (RUN_THRESHOLD \<le> lead ls,
                 Some \<lparr>through_6_home = home_total ls, through_6_away = away_total ls,
                       through_6_lead = lead ls, maintained_lead = True\<rparr>), [])"
proof -
  have rec: "recorded_innings game = Some (xs @ [])"
    using assms(1) by simp
  have ne: "ls \<noteq> []" and le: "length ls \<le> 6" and nl: "[] \<noteq> ([]::json list) \<longrightarrow> length ls = 6"
    using assms(3,4) by auto
  show ?thesis
    by (simp add: is_blowout_def is_blowout_recorded_lines [OF rec assms(2) ne le nl] Let_def)
qed

theorem fewer_than_six_innings_witness:
  "recorded_innings (game_of (innings_of (take 4 scenario_a)))
     = Some (innings_of (take 4 scenario_a)) \<and>
   map inning_line (innings_of (take 4 scenario_a)) = map Some (take 4 scenario_a) \<and>
   0 < length (take 4 scenario_a) \<and> length (take 4 scenario_a) < 6 \<and>
   is_blowout (game_of (innings_of (take 4 scenario_a))) =
     (Inr (True, Some \<lparr>through_6_home = 6, through_6_away = 1, through_6_lead = 5,
                       maintained_lead = True\<rparr>), [])"
proof -
  have r: "recorded_innings (game_of (innings_of (take 4 scenario_a)))
             = Some (innings_of (take 4 scenario_a))"
    by (simp add: recorded_innings_def game_of_def)
  have l: "map inning_line (innings_of (take 4 scenario_a)) = map Some (take 4 scenario_a)"
    by (simp add: innings_of_def scenario_a_def inning_entry_def)
  have n: "0 < length (take 4 scenario_a)" "length (take 4 scenario_a) < 6"
    by (simp_all add: scenario_a_def)
  have v: "home_total (take 4 scenario_a) = 6" "away_total (take 4 scenario_a) = 1"
    "lead (take 4 scenario_a) = 5"
    by (simp_all add: scenario_a_def lead_def home_total_def away_total_def)
  show ?thesis
    using fewer_than_six_innings [OF r l n] r l n unfolding v by (simp add: RUN_THRESHOLD_def)
qed

text \<open>
  Claim C5. The claim: whenever reading the inning data meets a structural error (a
  missing key, a wrong type), the evaluator catches it, logs it and returns false with an
  empty analysis. On \<open>null_away_game\<close> the evaluator does not: \<^verbatim>\<open>None.get\<close> raises
  \<^verbatim>\<open>AttributeError\<close>, which the handler for \<^verbatim>\<open>KeyError\<close> and \<^verbatim>\<open>TypeError\<close> lets through, and
  nothing is logged.
\<close>

theorem attribute_error_escapes:
  "is_blowout null_away_game = (Inl AttributeError, [])"
  by (simp add: is_blowout_def is_blowout_try_def null_away_game_def game_of_def side_runs_def)

text \<open>
  Claim C6, as amended. For every inning entry in which the run field of a team is
  missing (the entry has no record for the team, or the record has no \<^verbatim>\<open>runs\<close>), the
  evaluator computes the same result as for the entry with the field an explicit 0,
  wherever the entry stands in the sequence.
\<close>

theorem missing_runs_count_as_zero:
  assumes "runs_missing side e"
    and "recorded_innings game = Some (xs @ e # ys)"
    and "recorded_innings game0 = Some (xs @ with_zero_runs side e # ys)"
  shows "is_blowout game = is_blowout game0"
proof -
  have same: "list_all2 (\<lambda>x y. \<forall>s. side_runs s x = side_runs s y) zs zs" for zs
    by (simp add: list_all2_same)
  have "\<forall>s. side_runs s e = side_runs s (with_zero_runs side e)"
    using assms(1) by (simp add: side_runs_with_zero)
  then have "list_all2 (\<lambda>x y. \<forall>s. side_runs s x = side_runs s y)
               (xs @ e # ys) (xs @ with_zero_runs side e # ys)"
    using same by (simp add: list_all2_appendI)
  with assms(2,3) show ?thesis by (rule is_blowout_same)
qed

theorem missing_runs_count_as_zero_witness:
  "runs_missing ''away'' away_missing \<and>
   recorded_innings (game_of ([] @ away_missing # [])) = Some ([] @ away_missing # []) \<and>
   recorded_innings (game_of ([] @ with_zero_runs ''away'' away_missing # []))
     = Some ([] @ with_zero_runs ''away'' away_missing # []) \<and>
   is_blowout (game_of ([] @ away_missing # []))
     = is_blowout (game_of ([] @ with_zero_runs ''away'' away_missing # [])) \<and>
   is_blowout (game_of ([] @ away_missing # [])) =
     (Inr (True, Some \<lparr>through_6_home = 5, through_6_away = 0, through_6_lead = 5,
                       maintained_lead = True\<rparr>), [])"
proof -
  have m: "runs_missing ''away'' away_missing"
    by (simp add: runs_missing_def away_missing_def)
  have r: "recorded_innings (game_of ([] @ away_missing # [])) = Some ([] @ away_missing # [])"
    by (simp add: recorded_innings_def game_of_def)
  have r0: "recorded_innings (game_of ([] @ with_zero_runs ''away'' away_missing # []))
              = Some ([] @ with_zero_runs ''away'' away_missing # [])"
    by (simp add: recorded_innings_def game_of_def)
  have v: "is_blowout (game_of ([] @ away_missing # [])) =
     (Inr (True, Some \<lparr>through_6_home = 5, through_6_away = 0, through_6_lead = 5,
                       maintained_lead = True\<rparr>), [])"
    by (simp add: is_blowout_def is_blowout_try_def game_of_def away_missing_def side_runs_def
        RUN_THRESHOLD_def)
  show ?thesis
    using missing_runs_count_as_zero [OF m r r0] m r r0 v by simp
qed

text \<open>
  The claim as stated also covers a malformed run field. With the away runs of the only
  inning the string \<^verbatim>\<open>"x"\<close>, the sum raises \<^verbatim>\<open>TypeError\<close> and the evaluator returns false
  with an empty analysis; with an explicit 0 there, it reports a blowout.
\<close>

theorem malformed_runs_not_zero:
  "is_blowout (game_of [away_malformed]) = (Inr (False, None), [LogError ''Error processing game data'']) \<and>
   is_blowout (game_of [away_zero]) =
     (Inr (True, Some \<lparr>through_6_home = 5, through_6_away = 0, through_6_lead = 5,
                       maintained_lead = True\<rparr>), []) \<and>
   is_blowout (game_of [away_malformed]) \<noteq> is_blowout (game_of [away_zero])"
  by (simp add: is_blowout_def is_blowout_try_def game_of_def away_malformed_def away_zero_def
      side_runs_def RUN_THRESHOLD_def)




text \<open>
  Claim C8. For the empty inning sequence (no innings recorded), the evaluator returns
  false and an empty analysis.
\<close>

theorem is_blowout_no_innings:
  "recorded_innings game = Some [] \<Longrightarrow> is_blowout game = (Inr (False, None), [])"
  by (simp add: is_blowout_def is_blowout_try_recorded)

theorem is_blowout_no_innings_witness:
  "recorded_innings (game_of []) = Some [] \<and> is_blowout (game_of []) = (Inr (False, None), [])"
proof -
  have r: "recorded_innings (game_of []) = Some []"
    by (simp add: recorded_innings_def game_of_def)
  show ?thesis
    using is_blowout_no_innings [OF r] r by simp
qed

text \<open>
  Claim C9. For every input on which the evaluator returns an analysis that is not empty,
  \<open>through_6_lead\<close> is the absolute difference of \<open>through_6_home\<close> and \<open>through_6_away\<close>,
  and whenever the boolean result is true, \<open>maintained_lead\<close> is true. The input is any
  value, well formed or not.
\<close>

theorem analysis_consistent:
  assumes "is_blowout game = (Inr (b, Some an), lg)"
  shows "through_6_lead an = \<bar>through_6_home an - through_6_away an\<bar> \<and> (b \<longrightarrow> maintained_lead an)"
proof -
  have "is_blowout_try game = Inr (b, Some an)"
    using assms by (auto simp: is_blowout_def split: sum.splits py_error.splits)
  then show ?thesis by (rule is_blowout_try_consistent)
qed

theorem analysis_consistent_witness:
  "is_blowout (game_of (innings_of scenario_a)) =
     (Inr (True, Some \<lparr>through_6_home = 8, through_6_away = 1, through_6_lead = 7,
                       maintained_lead = True\<rparr>), []) \<and>
   through_6_lead \<lparr>through_6_home = 8, through_6_away = 1, through_6_lead = 7,
                   maintained_lead = True\<rparr>
     = \<bar>through_6_home \<lparr>through_6_home = 8, through_6_away = 1, through_6_lead = 7,
                        maintained_lead = True\<rparr>
        - through_6_away \<lparr>through_6_home = 8, through_6_away = 1, through_6_lead = 7,
                          maintained_lead = True\<rparr>\<bar> \<and>
   maintained_lead \<lparr>through_6_home = 8, through_6_away = 1, through_6_lead = 7,
                   maintained_lead = True\<rparr>"
proof -
  have v: "is_blowout (game_of (innings_of scenario_a)) =
     (Inr (True, Some \<lparr>through_6_home = 8, through_6_away = 1, through_6_lead = 7,
                       maintained_lead = True\<rparr>), [])"
    by (simp add: is_blowout_def is_blowout_try_def game_of_def innings_of_def scenario_a_def
        inning_entry_def side_runs_def RUN_THRESHOLD_def)
  show ?thesis
    using analysis_consistent [OF v] v by blast
qed

text \<open>
  Claim C10. For any two inning sequences of at least six innings that agree on their
  first six, the evaluator returns analyses with the same \<open>through_6_home\<close>,
  \<open>through_6_away\<close> and \<open>through_6_lead\<close>: the scan of the later innings can change the
  boolean result and \<open>maintained_lead\<close> only.
\<close>

theorem through_6_frame:
  assumes "recorded_innings g1 = Some xs1" and "map inning_line xs1 = map Some ls1"
    and "recorded_innings g2 = Some xs2" and "map inning_line xs2 = map Some ls2"
    and "6 \<le> length ls1" and "6 \<le> length ls2" and "take 6 ls1 = take 6 ls2"
  shows "\<exists>b1 m1 b2 m2.
           is_blowout g1 =
             (Inr (b1, Some \<lparr>through_6_home = home_total (take 6 ls1),
                     through_6_away = away_total (take 6 ls1),
                     through_6_lead = lead (take 6 ls1), maintained_lead = m1\<rparr>), []) \<and>
           is_blowout g2 =
             (Inr (b2, Some \<lparr>through_6_home = home_total (take 6 ls1),
                     through_6_away = away_total (take 6 ls1),
                     through_6_lead = lead (take 6 ls1), maintained_lead = m2\<rparr>), [])"
proof -
  have ne: "ls1 \<noteq> []" "ls2 \<noteq> []"
    using assms(5,6) by auto
  obtain b1 m1 where r1: "is_blowout_try g1 =
      Inr (b1, Some \<lparr>through_6_home = home_total (take 6 ls1),
             through_6_away = away_total (take 6 ls1),
             through_6_lead = lead (take 6 ls1), maintained_lead = m1\<rparr>)"
    using is_blowout_try_lines_ex [OF assms(1,2) ne(1)] by blast
  obtain b2 m2 where r2: "is_blowout_try g2 =
      Inr (b2, Some \<lparr>through_6_home = home_total (take 6 ls2),
             through_6_away = away_total (take 6 ls2),
             through_6_lead = lead (take 6 ls2), maintained_lead = m2\<rparr>)"
    using is_blowout_try_lines_ex [OF assms(3,4) ne(2)] by blast
  have "is_blowout g1 =
          (Inr (b1, Some \<lparr>through_6_home = home_total (take 6 ls1),
                  through_6_away = away_total (take 6 ls1),
                  through_6_lead = lead (take 6 ls1), maintained_lead = m1\<rparr>), []) \<and>
        is_blowout g2 =
          (Inr (b2, Some \<lparr>through_6_home = home_total (take 6 ls1),
                  through_6_away = away_total (take 6 ls1),
                  through_6_lead = lead (take 6 ls1), maintained_lead = m2\<rparr>), [])"
    using assms(7) by (simp add: is_blowout_def r1 r2)
  then show ?thesis by blast
qed

theorem through_6_frame_witness:
  "recorded_innings (game_of (innings_of scenario_c)) = Some (innings_of scenario_c) \<and>
   map inning_line (innings_of scenario_c) = map Some scenario_c \<and>
   recorded_innings (game_of (innings_of (take 6 scenario_c))) = Some (innings_of (take 6 scenario_c)) \<and>
   map inning_line (innings_of (take 6 scenario_c)) = map Some (take 6 scenario_c) \<and>
   6 \<le> length scenario_c \<and> 6 \<le> length (take 6 scenario_c) \<and>
   take 6 scenario_c = take 6 (take 6 scenario_c) \<and>
   (\<exists>b1 m1 b2 m2.
      is_blowout (game_of (innings_of scenario_c)) =
        (Inr (b1, Some \<lparr>through_6_home = 6, through_6_away = 0, through_6_lead = 6,
                        maintained_lead = m1\<rparr>), []) \<and>
      is_blowout (game_of (innings_of (take 6 scenario_c))) =
        (Inr (b2, Some \<lparr>through_6_home = 6, through_6_away = 0, through_6_lead = 6,
                        maintained_lead = m2\<rparr>), []))"
proof -
  have r1: "recorded_innings (game_of (innings_of scenario_c)) = Some (innings_of scenario_c)"
    by (simp add: recorded_innings_def game_of_def)
  have l1: "map inning_line (innings_of scenario_c) = map Some scenario_c"
    by (simp add: innings_of_def scenario_c_def inning_entry_def)
  have r2: "recorded_innings (game_of (innings_of (take 6 scenario_c)))
              = Some (innings_of (take 6 scenario_c))"
    by (simp add: recorded_innings_def game_of_def)
  have l2: "map inning_line (innings_of (take 6 scenario_c)) = map Some (take 6 scenario_c)"
    by (simp add: innings_of_def scenario_c_def inning_entry_def)
  have n: "6 \<le> length scenario_c" "6 \<le> length (take 6 scenario_c)"
    "take 6 scenario_c = take 6 (take 6 scenario_c)"
    by (simp_all add: scenario_c_def)
  have v: "home_total (take 6 scenario_c) = 6" "away_total (take 6 scenario_c) = 0"
    "lead (take 6 scenario_c) = 6"
    by (simp_all add: scenario_c_def lead_def home_total_def away_total_def)
  show ?thesis
    using through_6_frame [OF r1 l1 r2 l2 n] r1 l1 r2 l2 n unfolding v by simp
qed

end
